theory Spec2Isabelle
  imports Main "HOL-Library.Word"
begin

section \<open>Strings as the program uses them\<close>

text \<open>
  A Python \<open>str\<close> is modelled as a \<open>string\<close> whose characters are the code points
  0 to 255. \<open>is_space\<close> is the whitespace class that both \<open>str.strip()\<close> and the regular
  expression \<open>\s\<close> use on that range.
\<close>

definition is_space :: "char \<Rightarrow> bool" where
  "is_space c = (let n = (of_char c :: nat) in
     (9 \<le> n \<and> n \<le> 13) \<or> (28 \<le> n \<and> n \<le> 32) \<or> n = 133 \<or> n = 160)"

text \<open>\<open>INVALID_WIN_RE = re.compile(r'[<>:"/\\|?*]')\<close>: the character class.\<close>

definition invalid_win :: "char \<Rightarrow> bool" where
  "invalid_win c = (c \<in> set [CHR ''<'', CHR ''>'', CHR '':'', CHR 0x22, CHR ''/'', CHR 0x5C,
       CHR ''|'', CHR ''?'', CHR ''*''])"

text \<open>\<open>INVALID_WIN_RE.sub(" ", name)\<close>: every character of the class becomes one space.\<close>

definition invalid_win_sub :: "string \<Rightarrow> string" where
  "invalid_win_sub s = map (\<lambda>c. if invalid_win c then CHR '' '' else c) s"

text \<open>
  \<open>MULTISPACE_RE.sub(" ", s)\<close> with \<open>MULTISPACE_RE = re.compile(r"\s+")\<close>: scanning from the
  left, a whitespace character starts a match that takes the whole run (the quantifier is
  greedy) and is replaced by one space; any other character is copied.
\<close>

function multispace_sub :: "string \<Rightarrow> string" where
  "multispace_sub [] = []"
| "multispace_sub (c # cs) =
     (if is_space c then CHR '' '' # multispace_sub (dropWhile is_space cs)
      else c # multispace_sub cs)"
  by pat_completeness auto
termination
  by (relation "measure length") (auto simp: le_imp_less_Suc length_dropWhile_le)

text \<open>
  \<open>re.sub(r"\s*-\s*", " - ", s)\<close>: at the current position the pattern matches exactly when
  the (possibly empty) whitespace run that starts there is followed by a hyphen; the match
  then also takes the whitespace run after the hyphen, the replacement is written and the
  scan goes on behind the match. Where the pattern does not match, one character is copied.
\<close>

function hyphen_sub :: "string \<Rightarrow> string" where
  "hyphen_sub [] = []"
| "hyphen_sub (c # cs) =
     (case dropWhile is_space (c # cs) of
        [] \<Rightarrow> c # hyphen_sub cs
      | d # r \<Rightarrow>
          if d = CHR ''-'' then '' - '' @ hyphen_sub (dropWhile is_space r)
          else c # hyphen_sub cs)"
  by pat_completeness auto
termination
proof (relation "measure length", goal_cases)
  case 1
  show ?case by simp
next
  case (2 c cs)
  show ?case by simp
next
  case (3 c cs d r)
  have "length (dropWhile is_space r) \<le> length r"
    by (rule length_dropWhile_le)
  moreover have "length (d # r) \<le> length (c # cs)"
    using 3(1) length_dropWhile_le [of is_space "c # cs"] by simp
  ultimately show ?case by simp
next
  case (4 c cs d r)
  show ?case by simp
qed

text \<open>\<open>s.strip()\<close> removes whitespace at both ends; \<open>s.rstrip(chars)\<close> removes the
  characters of \<open>chars\<close> at the right end.\<close>

definition strip :: "string \<Rightarrow> string" where
  "strip s = rev (dropWhile is_space (rev (dropWhile is_space s)))"

definition rstrip :: "string \<Rightarrow> string \<Rightarrow> string" where
  "rstrip chars s = rev (dropWhile (\<lambda>c. c \<in> set chars) (rev s))"

text \<open>\<open>s.lower()\<close> on the code points 0 to 255: A to Z and the Latin-1 capitals move up by 32.\<close>

definition lower_char :: "char \<Rightarrow> char" where
  "lower_char c = (let n = (of_char c :: nat) in
     if (65 \<le> n \<and> n \<le> 90) \<or> (192 \<le> n \<and> n \<le> 222 \<and> n \<noteq> 215) then char_of (n + 32) else c)"

definition lower :: "string \<Rightarrow> string" where
  "lower s = map lower_char s"

text \<open>The decimal digits of \<open>f"{i}"\<close> for a non-negative integer.\<close>

fun str_nat :: "nat \<Rightarrow> string" where
  "str_nat n = (if n < 10 then [char_of (48 + n)] else str_nat (n div 10) @ [char_of (48 + n mod 10)])"

declare str_nat.simps [simp del]

section \<open>Filename Sanitizer\<close>

definition sanitize_filename :: "string \<Rightarrow> string" where
  "sanitize_filename name0 =
     (let name1 = invalid_win_sub name0;
          name2 = rstrip '' .'' (strip (multispace_sub name1));
          name3 = hyphen_sub name2;
          name4 = rstrip '' .'' (strip (multispace_sub name3))
      in if name4 = [] then ''untitled'' else name4)"

text \<open>\<open>if album:\<close> holds for a string that is present and not empty.\<close>

definition make_target_filename :: "string \<Rightarrow> string \<Rightarrow> string option \<Rightarrow> string" where
  "make_target_filename a t alb =
     sanitize_filename
       (case alb of
          None \<Rightarrow> a @ '' - '' @ t @ ''.mp3''
        | Some al \<Rightarrow>
            if al \<noteq> [] then a @ '' - '' @ t @ '' - '' @ al @ ''.mp3''
            else a @ '' - '' @ t @ ''.mp3'')"


section \<open>Recognition payloads\<close>

text \<open>
  The recognition response is an untyped JSON tree; a Python \<open>dict\<close> with string keys is an
  association list read with \<open>map_of\<close>.
\<close>

datatype json =
    JNull
  | JBool bool
  | JNum int
  | JStr string
  | JArr "json list"
  | JObj "(string \<times> json) list"

datatype exn =
    AttributeError string
  | TypeError string
  | ValueError string
  | OSError string
  | MutagenError string

text \<open>\<open>str(e)\<close>: the message of the exception.\<close>

fun str_exn :: "exn \<Rightarrow> string" where
  "str_exn (AttributeError m) = m"
| "str_exn (TypeError m) = m"
| "str_exn (ValueError m) = m"
| "str_exn (OSError m) = m"
| "str_exn (MutagenError m) = m"

text \<open>Python truthiness, as \<open>not x\<close>, \<open>x or y\<close> and \<open>if x:\<close> read it.\<close>

fun truthy :: "json \<Rightarrow> bool" where
  "truthy JNull = False"
| "truthy (JBool b) = b"
| "truthy (JNum n) = (n \<noteq> 0)"
| "truthy (JStr s) = (s \<noteq> [])"
| "truthy (JArr xs) = (xs \<noteq> [])"
| "truthy (JObj kvs) = (kvs \<noteq> [])"

definition py_or :: "json \<Rightarrow> json \<Rightarrow> json" where
  "py_or a b = (if truthy a then a else b)"

text \<open>\<open>d.get(k)\<close> of a dict, and \<open>x.get(k)\<close> of any value: only a dict has the method.\<close>

definition dict_get :: "(string \<times> json) list \<Rightarrow> string \<Rightarrow> json" where
  "dict_get kvs k = (case map_of kvs k of None \<Rightarrow> JNull | Some v \<Rightarrow> v)"

fun py_get :: "json \<Rightarrow> string \<Rightarrow> exn + json" where
  "py_get (JObj kvs) k = Inr (dict_get kvs k)"
| "py_get _ k = Inl (AttributeError ''object has no attribute get'')"

text \<open>\<open>for x in v\<close>: a list gives its elements, a string its characters, a dict its keys;
  the other values are not iterable.\<close>

fun py_iter :: "json \<Rightarrow> exn + json list" where
  "py_iter (JArr xs) = Inr xs"
| "py_iter (JStr s) = Inr (map (\<lambda>c. JStr [c]) s)"
| "py_iter (JObj kvs) = Inr (map (\<lambda>kv. JStr (fst kv)) kvs)"
| "py_iter _ = Inl (TypeError ''object is not iterable'')"

text \<open>\<open>MULTISPACE_RE.sub(" ", v).strip()\<close>: the pattern accepts only a string.\<close>

fun py_normalize :: "json \<Rightarrow> exn + string" where
  "py_normalize (JStr s) = Inr (strip (multispace_sub s))"
| "py_normalize _ = Inl (TypeError ''expected string or bytes-like object'')"

record TrackInfo =
  artist :: string
  title :: string
  album :: "string option"
  cover_url :: "json option"

section \<open>Payload Extractor\<close>

text \<open>The inner loop \<open>for md in meta\<close>, with the album found so far as its state.\<close>

fun scan_metadata :: "json option \<Rightarrow> json list \<Rightarrow> exn + json option" where
  "scan_metadata alb [] = Inr alb"
| "scan_metadata alb (md # mds) =
     (case md of
        JObj kvs \<Rightarrow>
          (case py_or (dict_get kvs ''title'') (JStr []) of
             JStr s \<Rightarrow>
               if lower (strip s) = ''album''
               then scan_metadata
                      (if truthy (dict_get kvs ''text'') then Some (dict_get kvs ''text'') else alb) mds
               else scan_metadata alb mds
           | _ \<Rightarrow> Inl (AttributeError ''object has no attribute strip''))
      | _ \<Rightarrow> scan_metadata alb mds)"

text \<open>The outer loop \<open>for sec in track.get("sections", []) or []\<close>.\<close>

fun scan_sections :: "json option \<Rightarrow> json list \<Rightarrow> exn + json option" where
  "scan_sections alb [] = Inr alb"
| "scan_sections alb (sec # secs) =
     (case sec of
        JObj kvs \<Rightarrow>
          if \<not> truthy (dict_get kvs ''metadata'') then scan_sections alb secs
          else (case py_iter (dict_get kvs ''metadata'') of
                  Inl e \<Rightarrow> Inl e
                | Inr mds \<Rightarrow>
                    (case scan_metadata alb mds of
                       Inl e \<Rightarrow> Inl e
                     | Inr alb' \<Rightarrow> scan_sections alb' secs))
      | _ \<Rightarrow> scan_sections alb secs)"

text \<open>\<open>images.get("coverarthq") or images.get("coverart") or images.get("background") or None\<close>.\<close>

definition find_cover :: "json \<Rightarrow> exn + json option" where
  "find_cover images =
     (case py_get images ''coverarthq'' of
        Inl e \<Rightarrow> Inl e
      | Inr c1 \<Rightarrow>
          if truthy c1 then Inr (Some c1)
          else (case py_get images ''coverart'' of
                  Inl e \<Rightarrow> Inl e
                | Inr c2 \<Rightarrow>
                    if truthy c2 then Inr (Some c2)
                    else (case py_get images ''background'' of
                            Inl e \<Rightarrow> Inl e
                          | Inr c3 \<Rightarrow> if truthy c3 then Inr (Some c3) else Inr None)))"

text \<open>The statements after the loops: cover, then the three normalisations in source order.\<close>

definition finish_extract :: "json \<Rightarrow> json \<Rightarrow> json \<Rightarrow> json option \<Rightarrow> exn + TrackInfo option" where
  "finish_extract track t0 a0 alb =
     (case py_get track ''images'' of
        Inl e \<Rightarrow> Inl e
      | Inr im \<Rightarrow>
     (case find_cover (py_or im (JObj [])) of
        Inl e \<Rightarrow> Inl e
      | Inr cover \<Rightarrow>
     (case py_normalize a0 of
        Inl e \<Rightarrow> Inl e
      | Inr a \<Rightarrow>
     (case py_normalize t0 of
        Inl e \<Rightarrow> Inl e
      | Inr t \<Rightarrow>
     (case alb of
        None \<Rightarrow> Inr (Some \<lparr>artist = a, title = t, album = None, cover_url = cover\<rparr>)
      | Some al0 \<Rightarrow>
          (case py_normalize al0 of
             Inl e \<Rightarrow> Inl e
           | Inr al \<Rightarrow> Inr (Some \<lparr>artist = a, title = t, album = Some al, cover_url = cover\<rparr>)))))))"

text \<open>The body of the \<open>try\<close> block: \<open>Inl\<close> is an exception raised inside it.\<close>

definition extract_body :: "json \<Rightarrow> exn + TrackInfo option" where
  "extract_body payload =
     (case py_get payload ''track'' of
        Inl e \<Rightarrow> Inl e
      | Inr tr \<Rightarrow>
     (let track = py_or tr (JObj []) in
      case py_get track ''title'' of
        Inl e \<Rightarrow> Inl e
      | Inr t0 \<Rightarrow>
     (case py_get track ''subtitle'' of
        Inl e \<Rightarrow> Inl e
      | Inr a0 \<Rightarrow>
          if \<not> truthy t0 \<or> \<not> truthy a0 then Inr None
          else
     (case py_get track ''sections'' of
        Inl e \<Rightarrow> Inl e
      | Inr ss \<Rightarrow>
     (case py_iter (py_or ss (JArr [])) of
        Inl e \<Rightarrow> Inl e
      | Inr secs \<Rightarrow>
     (case scan_sections None secs of
        Inl e \<Rightarrow> Inl e
      | Inr alb \<Rightarrow> finish_extract track t0 a0 alb))))))"

text \<open>\<open>try: ... except Exception: return None\<close>. The result is still typed as a call that
  could raise, so that "never raises" is a statement about it.\<close>

definition extract_trackinfo_from_shazam :: "json \<Rightarrow> exn + TrackInfo option" where
  "extract_trackinfo_from_shazam payload =
     (case extract_body payload of Inl e \<Rightarrow> Inr None | Inr r \<Rightarrow> Inr r)"


section \<open>Files, tag containers and the external collaborators\<close>

text \<open>
  A path is its directory and its name; \<open>p.with_name(n)\<close> keeps the directory. The file
  system is a finite association from paths to the ID3 container of each MP3 file
  (\<open>None\<close>: the file has no tag header yet).
\<close>

type_synonym path = "string \<times> string"

type_synonym bytes = "8 word list"

datatype frame =
    TextFrame string string
  | ApicFrame string nat string bytes

fun frame_id :: "frame \<Rightarrow> string" where
  "frame_id (TextFrame i t) = i"
| "frame_id (ApicFrame m ty d b) = ''APIC''"

type_synonym world = "(path \<times> frame list option) list"

text \<open>
  What the program cannot decide itself: the recognition service (\<open>None\<close>: the call timed
  out or raised), the cover download \<open>requests.get(url, timeout=15)\<close> followed by
  \<open>raise_for_status()\<close> and \<open>.content\<close> (\<open>Inl\<close>: any exception of the three), and the
  failures of opening, saving and renaming a file.
\<close>

record env =
  recognize :: "path \<Rightarrow> json option"
  fetch_cover :: "string \<Rightarrow> exn + bytes"
  open_error :: "path \<Rightarrow> exn option"
  save_error :: "path \<Rightarrow> exn option"
  rename_error :: "path \<Rightarrow> path \<Rightarrow> exn option"

definition path_exists :: "world \<Rightarrow> path \<Rightarrow> bool" where
  "path_exists w p = (map_of w p \<noteq> None)"

definition with_name :: "path \<Rightarrow> string \<Rightarrow> path" where
  "with_name p n = (fst p, n)"

text \<open>\<open>src.rename(dest)\<close>: the entry of \<open>src\<close> moves to \<open>dest\<close>, replacing what was there.\<close>

definition fs_rename :: "env \<Rightarrow> world \<Rightarrow> path \<Rightarrow> path \<Rightarrow> exn + world" where
  "fs_rename ev w src dest =
     (if \<not> path_exists w src then Inl (OSError ''No such file or directory'')
      else (case rename_error ev src dest of
              Some e \<Rightarrow> Inl e
            | None \<Rightarrow>
                Inr (map (\<lambda>(q, t). if q = src then (dest, t) else (q, t))
                       (filter (\<lambda>(q, t). q \<noteq> dest \<or> q = src) w))))"

text \<open>\<open>os.path.splitext\<close> (POSIX): the extension starts at the last dot of the last path
  component, unless only dots stand before it.\<close>

definition splitext :: "string \<Rightarrow> string \<times> string" where
  "splitext p =
     (let base = rev (takeWhile (\<lambda>c. c \<noteq> CHR ''/'') (rev p));
          ext = rev (takeWhile (\<lambda>c. c \<noteq> CHR ''.'') (rev base));
          k = length p - length ext - 1
      in if CHR ''.'' \<in> set base \<and>
            list_ex (\<lambda>c. c \<noteq> CHR ''.'') (take (length base - length ext - 1) base)
         then (take k p, drop k p) else (p, []))"

definition candidate_name :: "string \<Rightarrow> string \<Rightarrow> nat \<Rightarrow> string" where
  "candidate_name stem ext i = stem @ '' ('' @ str_nat i @ '')'' @ ext"


text \<open>The decimal rendering is injective, so the candidates \<open>stem (i)ext\<close> are pairwise
  different and only finitely many of them can exist.\<close>

definition num_of :: "string \<Rightarrow> nat" where
  "num_of s = foldl (\<lambda>a c. 10 * a + (of_char c - 48)) 0 s"

lemma num_of_str_nat: "num_of (str_nat n) = n"
proof (induction n rule: str_nat.induct)
  case (1 n)
  show ?case
  proof (cases "n < 10")
    case True
    then show ?thesis by (simp add: num_of_def str_nat.simps)
  next
    case False
    have "n mod 10 < 10" by simp
    then have d: "of_char (char_of (48 + n mod 10) :: char) = (48 + n mod 10 :: nat)"
      by simp
    have "num_of (str_nat n) = 10 * num_of (str_nat (n div 10)) + n mod 10"
      using False d by (subst str_nat.simps) (simp add: num_of_def)
    then show ?thesis using 1 False by simp
  qed
qed

lemma str_nat_inj: "str_nat i = str_nat j \<Longrightarrow> i = j"
proof -
  assume "str_nat i = str_nat j"
  then have "num_of (str_nat i) = num_of (str_nat j)"
    by (rule arg_cong)
  then show "i = j"
    by (simp only: num_of_str_nat)
qed

lemma candidate_name_inj: "candidate_name stem ext i = candidate_name stem ext j \<Longrightarrow> i = j"
  by (simp add: candidate_name_def str_nat_inj)

lemma taken_finite: "finite {j. path_exists w (d, candidate_name stem ext j)}"
proof -
  have "{j. path_exists w (d, candidate_name stem ext j)}
          \<subseteq> (\<lambda>j. (d, candidate_name stem ext j)) -` (fst ` set w)"
    by (force simp: path_exists_def dest!: map_of_SomeD)
  moreover have "inj (\<lambda>j. (d, candidate_name stem ext j))"
    by (rule injI) (auto dest: candidate_name_inj)
  ultimately show ?thesis
    by (meson finite_imageI finite_set finite_subset finite_vimageI)
qed

section \<open>Collision-Safe Renamer\<close>

text \<open>The loop \<open>while True\<close> of \<open>safe_rename\<close>: the first \<open>i\<close>, counting up, whose candidate
  does not exist.\<close>

function probe :: "world \<Rightarrow> path \<Rightarrow> string \<Rightarrow> string \<Rightarrow> nat \<Rightarrow> nat" where
  "probe w src stem ext i =
     (if path_exists w (with_name src (candidate_name stem ext i))
      then probe w src stem ext (Suc i) else i)"
  by pat_completeness auto
termination
proof (relation "measure (\<lambda>(w, src, stem, ext, i).
         card {j. i \<le> j \<and> path_exists w (fst src, candidate_name stem ext j)})", goal_cases)
  case 1
  show ?case by simp
next
  case (2 w src stem ext i)
  let ?A = "\<lambda>k. {j. k \<le> j \<and> path_exists w (fst src, candidate_name stem ext j)}"
  have fin: "finite (?A i)"
    by (rule finite_subset [OF _ taken_finite [of w "fst src" stem ext]]) auto
  have "i \<in> ?A i" "i \<notin> ?A (Suc i)" "?A (Suc i) \<subseteq> ?A i"
    using 2 by (auto simp: with_name_def)
  then have "?A (Suc i) \<subset> ?A i"
    by blast
  then have "card (?A (Suc i)) < card (?A i)"
    using fin by (rule psubset_card_mono [rotated])
  then show ?case by simp
qed

declare probe.simps [simp del]

definition safe_rename :: "env \<Rightarrow> world \<Rightarrow> path \<Rightarrow> string \<Rightarrow> exn + (world \<times> path)" where
  "safe_rename ev w src target_name =
     (let dest = with_name src target_name in
      if dest = src then Inr (w, src)
      else if \<not> path_exists w dest then
        (case fs_rename ev w src dest of Inl e \<Rightarrow> Inl e | Inr w' \<Rightarrow> Inr (w', dest))
      else
        (let (stem, ext) = splitext target_name;
             i = probe w src stem ext 1;
             candidate = with_name src (candidate_name stem ext i)
         in case fs_rename ev w src candidate of
              Inl e \<Rightarrow> Inl e
            | Inr w' \<Rightarrow> Inr (w', candidate)))"

section \<open>Tag Writer\<close>

definition sniff_image_mime :: "bytes \<Rightarrow> string" where
  "sniff_image_mime d =
     (if take 3 d = [0xff, 0xd8, 0xff] then ''image/jpeg''
      else if take 4 d = [0x89, 0x50, 0x4e, 0x47] then ''image/png''
      else if take 6 d = [0x47, 0x49, 0x46, 0x38, 0x37, 0x61]
              \<or> take 6 d = [0x47, 0x49, 0x46, 0x38, 0x39, 0x61] then ''image/gif''
      else ''application/octet-stream'')"

text \<open>\<open>MP3(file_path)\<close> reads the file's tag container; \<open>ensure_id3\<close> adds an empty one
  where the file has none; \<open>tags.delall(k)\<close>; \<open>audio.save(v2_version=3)\<close>.\<close>

definition mp3_open :: "env \<Rightarrow> world \<Rightarrow> path \<Rightarrow> exn + frame list option" where
  "mp3_open ev w p =
     (case map_of w p of
        None \<Rightarrow> Inl (OSError ''No such file or directory'')
      | Some tg \<Rightarrow> (case open_error ev p of Some e \<Rightarrow> Inl e | None \<Rightarrow> Inr tg))"

definition ensure_id3 :: "frame list option \<Rightarrow> frame list" where
  "ensure_id3 tg = (case tg of None \<Rightarrow> [] | Some fs \<Rightarrow> fs)"

definition delall :: "string \<Rightarrow> frame list \<Rightarrow> frame list" where
  "delall k fs = filter (\<lambda>f. frame_id f \<noteq> k) fs"

definition mp3_save :: "env \<Rightarrow> world \<Rightarrow> path \<Rightarrow> frame list \<Rightarrow> exn + world" where
  "mp3_save ev w p fs =
     (case save_error ev p of
        Some e \<Rightarrow> Inl e
      | None \<Rightarrow> Inr (map (\<lambda>(q, t). if q = p then (q, Some fs) else (q, t)) w))"

text \<open>The \<open>try\<close> block around the cover download: the frames and \<open>art_ok\<close> after it. A
  cover value that is not a string makes \<open>requests.get\<close> raise.\<close>

definition embed_cover :: "env \<Rightarrow> json option \<Rightarrow> frame list \<Rightarrow> frame list \<times> bool" where
  "embed_cover ev cover fs =
     (case cover of
        None \<Rightarrow> (fs, False)
      | Some u \<Rightarrow>
          if \<not> truthy u then (fs, False)
          else (case (case u of JStr url \<Rightarrow> fetch_cover ev url
                              | _ \<Rightarrow> Inl (ValueError ''Invalid URL'')) of
                  Inl e \<Rightarrow> (fs, False)
                | Inr d \<Rightarrow> (fs @ [ApicFrame (sniff_image_mime d) 3 ''Cover'' d], True)))"

definition update_tags :: "env \<Rightarrow> world \<Rightarrow> path \<Rightarrow> TrackInfo \<Rightarrow> exn + (world \<times> bool \<times> bool)" where
  "update_tags ev w file_path track =
     (case mp3_open ev w file_path of
        Inl e \<Rightarrow> Inl e
      | Inr audio \<Rightarrow>
          (let tags0 = delall ''APIC'' (delall ''TALB'' (delall ''TPE1'' (delall ''TIT2''
                         (ensure_id3 audio))));
               tags1 = tags0 @ [TextFrame ''TIT2'' (title track)];
               tags2 = tags1 @ [TextFrame ''TPE1'' (artist track)];
               tags3 = (case album track of
                          None \<Rightarrow> tags2
                        | Some al \<Rightarrow> if al \<noteq> [] then tags2 @ [TextFrame ''TALB'' al] else tags2);
               (tags4, art) = embed_cover ev (cover_url track) tags3
           in case mp3_save ev w file_path tags4 of
                Inl e \<Rightarrow> Inl e
              | Inr w' \<Rightarrow> Inr (w', True, art)))"

section \<open>Per-File Pipeline and Batch Orchestrator\<close>

record FileResult =
  src_name :: string
  dest_name :: string
  identified :: bool
  renamed :: bool
  tags_ok :: bool
  art_ok :: bool
  skipped :: bool
  error :: "string option"

definition new_result :: "path \<Rightarrow> FileResult" where
  "new_result p = \<lparr>src_name = snd p, dest_name = snd p, identified = False, renamed = False,
     tags_ok = False, art_ok = False, skipped = False, error = None\<rparr>"

text \<open>\<open>shazam_identify_file\<close>: a timeout, an exception, an empty payload and an unusable
  payload all give \<open>None\<close>.\<close>

definition shazam_identify_file :: "env \<Rightarrow> path \<Rightarrow> TrackInfo option" where
  "shazam_identify_file ev p =
     (case recognize ev p of
        None \<Rightarrow> None
      | Some payload \<Rightarrow>
          if \<not> truthy payload then None
          else (case extract_trackinfo_from_shazam payload of Inl e \<Rightarrow> None | Inr r \<Rightarrow> r))"

text \<open>How the \<open>try\<close> block of one loop iteration ends: by \<open>continue\<close> after a skip, at its
  last statement, or in the \<open>except\<close> clause.\<close>

datatype outcome = Skipped | Done | Raised exn

definition bool_cover :: "json option \<Rightarrow> bool" where
  "bool_cover c = (case c of None \<Rightarrow> False | Some u \<Rightarrow> truthy u)"

text \<open>The statements from \<open>status = "TAGS/ART..."\<close> to the end of the \<open>try\<close> block.\<close>

definition tag_stage ::
  "env \<Rightarrow> bool \<Rightarrow> world \<Rightarrow> path \<Rightarrow> TrackInfo \<Rightarrow> FileResult \<Rightarrow> world \<times> FileResult \<times> outcome" where
  "tag_stage ev dry_run w p ti r =
     (if \<not> dry_run then
        (case update_tags ev w p ti of
           Inl e \<Rightarrow> (w, r, Raised e)
         | Inr (w', ok, art) \<Rightarrow> (w', r\<lparr>tags_ok := ok, art_ok := art\<rparr>, Done))
      else (w, r\<lparr>tags_ok := True, art_ok := bool_cover (cover_url ti)\<rparr>, Done))"

text \<open>The \<open>try\<close> block of one iteration: the world, the result record and the way the block
  ended. The calls that write the progress line and the log (\<open>print_progress\<close>, \<open>print\<close>)
  are left out: writing to the terminal is taken not to raise.\<close>

definition process_file ::
  "env \<Rightarrow> bool \<Rightarrow> world \<Rightarrow> path \<Rightarrow> world \<times> FileResult \<times> outcome" where
  "process_file ev dry_run w orig_path =
     (case shazam_identify_file ev orig_path of
        None \<Rightarrow> (w, (new_result orig_path)\<lparr>skipped := True\<rparr>, Skipped)
      | Some ti \<Rightarrow>
          (let r = (new_result orig_path)\<lparr>identified := True\<rparr>;
               new_name = make_target_filename (artist ti) (title ti) (album ti)
           in if new_name \<noteq> snd orig_path \<and> \<not> dry_run then
                (case safe_rename ev w orig_path new_name of
                   Inl e \<Rightarrow> (w, r, Raised e)
                 | Inr (w', p) \<Rightarrow>
                     tag_stage ev dry_run w' p ti (r\<lparr>dest_name := snd p, renamed := True\<rparr>))
              else tag_stage ev dry_run w orig_path ti r))"

record Summary =
  results :: "FileResult list"
  processed :: nat
  unidentified :: nat
  errors :: nat
  total :: nat

text \<open>One iteration of \<open>for i, orig_path in enumerate(files, 1)\<close>: the counters and
  \<open>results.append(result)\<close>; the \<open>except\<close> clause records \<open>str(e)\<close>.\<close>

definition process_step :: "env \<Rightarrow> bool \<Rightarrow> world \<times> Summary \<Rightarrow> path \<Rightarrow> world \<times> Summary" where
  "process_step ev dry_run st orig_path =
     (case process_file ev dry_run (fst st) orig_path of
        (w', r, Skipped) \<Rightarrow>
          (w', (snd st)\<lparr>results := results (snd st) @ [r],
                        unidentified := unidentified (snd st) + 1\<rparr>)
      | (w', r, Done) \<Rightarrow>
          (w', (snd st)\<lparr>results := results (snd st) @ [r],
                        processed := processed (snd st) + 1\<rparr>)
      | (w', r, Raised e) \<Rightarrow>
          (w', (snd st)\<lparr>results := results (snd st) @ [r\<lparr>error := Some (str_exn e)\<rparr>],
                        errors := errors (snd st) + 1\<rparr>))"


section \<open>Notions the properties are stated with\<close>





section \<open>Example inputs\<close>

definition ex_payload :: json where
  "ex_payload = JObj [(''track'', JObj [
      (''title'', JStr ''Bohemian Rhapsody''),
      (''subtitle'', JStr ''Queen''),
      (''sections'', JArr [JObj [(''metadata'', JArr [
          JObj [(''title'', JStr ''Album''), (''text'', JStr ''A Night at the Opera'')]])]]),
      (''images'', JObj [(''coverarthq'', JStr ''http://x/cover.jpg'')])])]"

definition ex_track :: TrackInfo where
  "ex_track = \<lparr>artist = ''Queen'', title = ''Bohemian Rhapsody'',
      album = Some ''A Night at the Opera'', cover_url = Some (JStr ''http://x/cover.jpg'')\<rparr>"

definition ex_path :: path where
  "ex_path = (''music'', ''track01.mp3'')"

definition ex_world :: world where
  "ex_world = [(ex_path, Some [TextFrame ''TIT2'' ''old title'', TextFrame ''TCON'' ''Rock''])]"

text \<open>An environment where the service knows the file, the cover download times out and
  no file operation fails; and one where saving the tags fails as well.\<close>

definition ex_env :: env where
  "ex_env = \<lparr>recognize = (\<lambda>p. if p = ex_path then Some ex_payload else None),
             fetch_cover = (\<lambda>u. Inl (OSError ''timed out'')),
             open_error = (\<lambda>p. None),
             save_error = (\<lambda>p. None),
             rename_error = (\<lambda>p q. None)\<rparr>"

definition ex_env_save_fails :: env where
  "ex_env_save_fails = ex_env\<lparr>save_error := (\<lambda>p. Some (MutagenError ''disk full''))\<rparr>"



section \<open>Notions for the extractor's properties\<close>


fun is_str :: "json \<Rightarrow> bool" where
  "is_str (JStr s) = True"
| "is_str _ = False"

text \<open>Reading a key of a value that may not be a dict, the track object as the extractor
  takes it (\<open>payload.get("track") or {}\<close>), and the sections it iterates over.\<close>

definition field :: "json \<Rightarrow> string \<Rightarrow> json" where
  "field v k = (case v of JObj kvs \<Rightarrow> dict_get kvs k | _ \<Rightarrow> JNull)"

definition track_of :: "json \<Rightarrow> json" where
  "track_of payload = py_or (field payload ''track'') (JObj [])"

definition sections_of :: "json \<Rightarrow> json list" where
  "sections_of payload =
     (case py_iter (py_or (field (track_of payload) ''sections'') (JArr [])) of
        Inr secs \<Rightarrow> secs
      | Inl e \<Rightarrow> [])"

text \<open>The metadata entries a section contributes to the scan, the entries that set the
  album (a dict whose title, stripped and lower-cased, is \<open>album\<close> and whose text is not
  empty), and the texts of these entries in scan order.\<close>

definition section_entries :: "json \<Rightarrow> json list" where
  "section_entries sec =
     (case sec of
        JObj kvs \<Rightarrow>
          if truthy (dict_get kvs ''metadata'')
          then (case py_iter (dict_get kvs ''metadata'') of Inr mds \<Rightarrow> mds | Inl e \<Rightarrow> [])
          else []
      | _ \<Rightarrow> [])"

definition album_entry :: "json \<Rightarrow> bool" where
  "album_entry md =
     (case md of
        JObj m \<Rightarrow>
          (case py_or (dict_get m ''title'') (JStr []) of
             JStr s \<Rightarrow> lower (strip s) = ''album'' \<and> truthy (dict_get m ''text'')
           | _ \<Rightarrow> False)
      | _ \<Rightarrow> False)"

definition album_texts :: "json list \<Rightarrow> json list" where
  "album_texts secs =
     map (\<lambda>md. field md ''text'') (filter album_entry (concat (map section_entries secs)))"

definition last_album :: "json option \<Rightarrow> json list \<Rightarrow> json option" where
  "last_album alb ts = (if ts = [] then alb else Some (last ts))"

text \<open>
  The album as the specification words it: within each section's metadata list the
  first entry whose title equals \<open>album\<close> without regard to case gives the section's album
  (its text); the last section that has such an entry wins.
\<close>

definition title_is_album :: "json \<Rightarrow> bool" where
  "title_is_album md = (case field md ''title'' of JStr s \<Rightarrow> lower s = ''album'' | _ \<Rightarrow> False)"

definition claimed_section_album :: "json \<Rightarrow> json option" where
  "claimed_section_album sec =
     (case field sec ''metadata'' of
        JArr mds \<Rightarrow> (case find title_is_album mds of
                       Some md \<Rightarrow> Some (field md ''text'')
                     | None \<Rightarrow> None)
      | _ \<Rightarrow> None)"

definition claimed_album :: "json list \<Rightarrow> json option" where
  "claimed_album secs =
     (case filter (\<lambda>x. x \<noteq> None) (map claimed_section_album secs) of
        [] \<Rightarrow> None
      | x # xs \<Rightarrow> last (x # xs))"

text \<open>Example payloads: two album entries in one section; a title of blanks only.\<close>

definition two_albums_payload :: json where
  "two_albums_payload = JObj [(''track'', JObj [
      (''title'', JStr ''Song''),
      (''subtitle'', JStr ''Band''),
      (''sections'', JArr [JObj [(''metadata'', JArr [
          JObj [(''title'', JStr ''Album''), (''text'', JStr ''X'')],
          JObj [(''title'', JStr ''Album''), (''text'', JStr ''Y'')]])]])])]"

definition blank_title_payload :: json where
  "blank_title_payload = JObj [(''track'', JObj [
      (''title'', JStr ''   ''),
      (''subtitle'', JStr ''Queen'')])]"

text \<open>The album field of the record made from the album the scan found.\<close>

definition normalized_album :: "json option \<Rightarrow> string option" where
  "normalized_album alb =
     (case alb of
        Some (JStr s) \<Rightarrow> Some (strip (multispace_sub s))
      | _ \<Rightarrow> None)"

section \<open>Notions for the sanitizer's properties\<close>

text \<open>
  A name is normal when it has no reserved character, all its whitespace is single
  spaces, every hyphen has a space on each side where there is a neighbour, and it
  neither starts with a space nor ends with a space or a period. \<open>sep_weak\<close> asks only for
  some whitespace next to a hyphen; \<open>lead\<close> and \<open>trail\<close> are the spaces that the hyphen
  substitution adds at the ends of a name that starts or ends with a hyphen.
\<close>

abbreviation SP :: char where "SP \<equiv> CHR '' ''"

abbreviation HY :: char where "HY \<equiv> CHR ''-''"

definition sep_ok :: "char \<Rightarrow> char \<Rightarrow> bool" where
  "sep_ok a b = (\<not> (a = SP \<and> b = SP) \<and> (a = HY \<longrightarrow> b = SP) \<and> (b = HY \<longrightarrow> a = SP))"

definition sep_weak :: "char \<Rightarrow> char \<Rightarrow> bool" where
  "sep_weak a b = ((a = HY \<longrightarrow> is_space b) \<and> (b = HY \<longrightarrow> is_space a))"

definition tidy_chars :: "string \<Rightarrow> bool" where
  "tidy_chars y = (\<forall>c \<in> set y. \<not> invalid_win c \<and> (is_space c \<longrightarrow> c = SP))"

definition normal_name :: "string \<Rightarrow> bool" where
  "normal_name y = (tidy_chars y \<and> successively sep_ok y \<and> y \<noteq> []
      \<and> \<not> is_space (hd y) \<and> \<not> is_space (last y) \<and> last y \<noteq> CHR ''.'')"

definition spaced :: "string \<Rightarrow> bool" where
  "spaced y = ((\<forall>c \<in> set y. is_space c \<longrightarrow> c = SP) \<and> successively sep_ok y)"

definition lead :: "string \<Rightarrow> string" where
  "lead y = (if y \<noteq> [] \<and> hd y = HY then [SP] else [])"

definition trail :: "string \<Rightarrow> string" where
  "trail y = (if y \<noteq> [] \<and> last y = HY then [SP] else [])"

section \<open>Facts about the tag writer and the pipeline\<close>

lemma update_tags_Inr: "update_tags ev w p ti = Inr res \<Longrightarrow> fst (snd res)"
  by (auto simp: update_tags_def Let_def split: sum.splits prod.splits)











section \<open>Facts about preview mode and the renamer\<close>




lemma probe_free:
  "\<not> path_exists w (with_name src (candidate_name stem ext (probe w src stem ext i)))"
  by (induction w src stem ext i rule: probe.induct) (subst probe.simps, simp)

lemma probe_ge: "i \<le> probe w src stem ext i"
proof (induction w src stem ext i rule: probe.induct)
  case (1 w src stem ext i)
  show ?case
  proof (cases "path_exists w (with_name src (candidate_name stem ext i))")
    case True
    with 1 show ?thesis by (subst probe.simps) simp
  next
    case False
    then show ?thesis by (subst probe.simps) simp
  qed
qed

lemma probe_taken_below:
  "i \<le> j \<Longrightarrow> j < probe w src stem ext i \<Longrightarrow>
   path_exists w (with_name src (candidate_name stem ext j))"
proof (induction w src stem ext i rule: probe.induct)
  case (1 w src stem ext i)
  show ?case
  proof (cases "path_exists w (with_name src (candidate_name stem ext i))")
    case True
    show ?thesis
    proof (cases "j = i")
      case True
      with \<open>path_exists w (with_name src (candidate_name stem ext i))\<close> show ?thesis by simp
    next
      case False
      with 1(2) have "Suc i \<le> j" by simp
      moreover from 1(3) True have "j < probe w src stem ext (Suc i)"
        by (subst (asm) probe.simps) simp
      ultimately show ?thesis using 1(1) [OF True] by simp
    qed
  next
    case False
    with 1(3) have "j < i" by (subst (asm) probe.simps) simp
    with 1(2) show ?thesis by simp
  qed
qed








section \<open>Facts about the album scan\<close>

lemma scan_metadata_last:
  "scan_metadata alb mds = Inr alb' \<Longrightarrow>
   alb' = last_album alb (map (\<lambda>md. field md ''text'') (filter album_entry mds))"
proof (induction mds arbitrary: alb)
  case Nil
  then show ?case by (simp add: last_album_def)
next
  case (Cons md mds)
  show ?case
  proof (cases "album_entry md")
    case True
    then obtain m s where md: "md = JObj m" and t: "py_or (dict_get m ''title'') (JStr []) = JStr s"
      and a: "lower (strip s) = ''album''" and x: "truthy (dict_get m ''text'')"
      by (auto simp: album_entry_def split: json.splits)
    from Cons.prems md t a x
    have "scan_metadata (Some (dict_get m ''text'')) mds = Inr alb'" by simp
    from Cons.IH [OF this] True md show ?thesis
      by (simp add: last_album_def field_def)
  next
    case False
    have "scan_metadata alb mds = Inr alb'"
    proof (cases md)
      case (JObj m)
      with Cons.prems False show ?thesis
        by (auto simp: album_entry_def split: json.splits if_splits)
    qed (use Cons.prems in simp_all)
    from Cons.IH [OF this] False show ?thesis by simp
  qed
qed

lemma last_album_append:
  "last_album (last_album alb xs) ys = last_album alb (xs @ ys)"
  by (simp add: last_album_def)

lemma scan_sections_last:
  "scan_sections alb secs = Inr alb' \<Longrightarrow> alb' = last_album alb (album_texts secs)"
proof (induction secs arbitrary: alb)
  case Nil
  then show ?case by (simp add: last_album_def album_texts_def)
next
  case (Cons sec secs)
  have at: "album_texts (sec # secs)
      = map (\<lambda>md. field md ''text'') (filter album_entry (section_entries sec)) @ album_texts secs"
    by (simp add: album_texts_def)
  show ?case
  proof (cases "\<exists>kvs. sec = JObj kvs \<and> truthy (dict_get kvs ''metadata'')")
    case False
    then have e: "section_entries sec = []"
      by (auto simp: section_entries_def split: json.splits)
    from False Cons.prems have "scan_sections alb secs = Inr alb'"
      by (cases sec) auto
    from Cons.IH [OF this] show ?thesis by (simp add: at e)
  next
    case True
    then obtain kvs where sec: "sec = JObj kvs" and tr: "truthy (dict_get kvs ''metadata'')"
      by blast
    from Cons.prems sec tr obtain mds alb1 where
      it: "py_iter (dict_get kvs ''metadata'') = Inr mds"
      and sm: "scan_metadata alb mds = Inr alb1"
      and ss: "scan_sections alb1 secs = Inr alb'"
      by (auto split: sum.splits)
    have e: "section_entries sec = mds"
      using sec tr it by (simp add: section_entries_def)
    from scan_metadata_last [OF sm] Cons.IH [OF ss] show ?thesis
      by (simp add: at e last_album_append)
  qed
qed

lemma py_normalize_Inr:
  "py_normalize v = Inr s \<longleftrightarrow> (\<exists>u. v = JStr u \<and> s = strip (multispace_sub u))"
  by (cases v) auto

lemma finish_extract_album:
  assumes "finish_extract track t0 a0 alb = Inr (Some ti)"
  shows "album ti = normalized_album alb \<and> (alb \<noteq> None \<longrightarrow> is_str (the alb))
   \<and> is_str t0 \<and> is_str a0"
proof -
  from assms obtain a t cv where a: "py_normalize a0 = Inr a" and t: "py_normalize t0 = Inr t"
    and r: "(case alb of
        None \<Rightarrow> Inr (Some \<lparr>artist = a, title = t, album = None, cover_url = cv\<rparr>)
      | Some al0 \<Rightarrow>
          (case py_normalize al0 of
             Inl e \<Rightarrow> Inl e
           | Inr al \<Rightarrow> Inr (Some \<lparr>artist = a, title = t, album = Some al,
                                      cover_url = cv\<rparr>))) = Inr (Some ti)"
    by (auto simp: finish_extract_def split: sum.splits)
  from a t have s: "is_str t0 \<and> is_str a0"
    by (auto simp: py_normalize_Inr)
  show ?thesis
  proof (cases alb)
    case None
    with r have "ti = \<lparr>artist = a, title = t, album = None, cover_url = cv\<rparr>" by simp
    with None s show ?thesis by (simp add: normalized_album_def)
  next
    case (Some al0)
    with r obtain al where n: "py_normalize al0 = Inr al"
      and ti: "ti = \<lparr>artist = a, title = t, album = Some al, cover_url = cv\<rparr>"
      by (auto split: sum.splits)
    from n obtain u where "al0 = JStr u" "al = strip (multispace_sub u)"
      by (auto simp: py_normalize_Inr)
    with Some ti s show ?thesis by (simp add: normalized_album_def)
  qed
qed

lemma extract_body_Some:
  assumes "extract_body payload = Inr (Some ti)"
  shows "\<exists>alb. scan_sections None (sections_of payload) = Inr alb
           \<and> finish_extract (track_of payload) (field (track_of payload) ''title'')
                (field (track_of payload) ''subtitle'') alb = Inr (Some ti)
           \<and> truthy (field (track_of payload) ''title'')
           \<and> truthy (field (track_of payload) ''subtitle'')"
proof -
  from assms obtain kvs where p: "payload = JObj kvs"
    by (cases payload) (auto simp: extract_body_def)
  from assms p obtain tk where t: "track_of payload = JObj tk"
    by (cases "track_of payload")
       (auto simp: extract_body_def track_of_def field_def Let_def split: sum.splits)
  from assms p t show ?thesis
    by (auto simp: extract_body_def track_of_def field_def sections_of_def Let_def
             split: sum.splits if_splits)
qed

lemma extract_Some_body:
  "extract_trackinfo_from_shazam payload = Inr (Some ti) \<Longrightarrow> extract_body payload = Inr (Some ti)"
  by (auto simp: extract_trackinfo_from_shazam_def split: sum.splits)



section \<open>Facts about the sanitizer's steps\<close>

lemma is_space_SP [simp]: "is_space SP" by (simp add: is_space_def)

lemma not_space_HY [simp]: "\<not> is_space HY" by (simp add: is_space_def)

lemma not_space_DOT [simp]: "\<not> is_space (CHR ''.'')" by (simp add: is_space_def)

lemma valid_SP [simp]: "\<not> invalid_win SP" by (simp add: invalid_win_def)

lemma valid_HY [simp]: "\<not> invalid_win HY" by (simp add: invalid_win_def)

lemma dropWhile_multispace:
  "dropWhile is_space (multispace_sub z) = multispace_sub (dropWhile is_space z)"
  by (induction z rule: multispace_sub.induct) simp_all

lemma multispace_space_cons:
  "multispace_sub (SP # z) = SP # dropWhile is_space (multispace_sub z)"
  by (simp add: dropWhile_multispace)

lemma set_multispace: "c \<in> set (multispace_sub s) \<Longrightarrow> c \<in> set s \<or> c = SP"
  by (induction s rule: multispace_sub.induct) (auto split: if_splits dest: set_dropWhileD)

lemma space_multispace: "c \<in> set (multispace_sub s) \<Longrightarrow> is_space c \<Longrightarrow> c = SP"
  by (induction s rule: multispace_sub.induct) (auto split: if_splits)

lemma multispace_Nil_iff [simp]: "multispace_sub s = [] \<longleftrightarrow> s = []"
  by (cases s) auto

lemma hd_multispace:
  "s \<noteq> [] \<Longrightarrow> hd (multispace_sub s) = (if is_space (hd s) then SP else hd s)"
  by (cases s) auto

lemma set_hyphen: "c \<in> set (hyphen_sub s) \<Longrightarrow> c \<in> set s \<or> c = SP \<or> c = HY"
proof (induction s rule: hyphen_sub.induct)
  case 1
  then show ?case by simp
next
  case (2 a cs)
  show ?case
  proof (cases "dropWhile is_space (a # cs)")
    case Nil
    with 2 show ?thesis by auto
  next
    case (Cons d r)
    show ?thesis
    proof (cases "d = HY")
      case True
      with 2(2,4) Cons have "c = SP \<or> c = HY \<or> c \<in> set (dropWhile is_space r)"
        by auto
      moreover have "set (dropWhile is_space r) \<subseteq> set (a # cs)"
        using set_dropWhileD [of _ is_space r] set_dropWhileD [of _ is_space "a # cs"] Cons
        by (metis list.set_intros(2) subsetI)
      ultimately show ?thesis by auto
    next
      case False
      with 2(3,4) Cons show ?thesis by auto
    qed
  qed
qed

lemma successively_dropWhile: "successively P xs \<Longrightarrow> successively P (dropWhile Q xs)"
  using successively_append_iff [of P "takeWhile Q xs" "dropWhile Q xs"] by simp

lemma successively_tl: "successively P (x # xs) \<Longrightarrow> successively P xs"
  by (cases xs) simp_all

lemma hyphen_match:
  "dropWhile is_space (c # cs) = HY # r \<Longrightarrow>
   hyphen_sub (c # cs) = SP # HY # SP # hyphen_sub (dropWhile is_space r)"
  by (simp only: hyphen_sub.simps list.case refl if_True append.simps)

lemma hyphen_copy_Nil:
  "dropWhile is_space (c # cs) = [] \<Longrightarrow> hyphen_sub (c # cs) = c # hyphen_sub cs"
  by (simp only: hyphen_sub.simps list.case)

lemma hyphen_copy:
  "dropWhile is_space (c # cs) = d # r \<Longrightarrow> d \<noteq> HY \<Longrightarrow>
   hyphen_sub (c # cs) = c # hyphen_sub cs"
  by (simp only: hyphen_sub.simps list.case if_False)

lemma copied_not_hyphen:
  "dropWhile is_space (c # cs) = [] \<or> (dropWhile is_space (c # cs) = d # r \<and> d \<noteq> HY)
   \<Longrightarrow> c \<noteq> HY"
  by (auto split: if_splits)

declare hyphen_sub.simps(2) [simp del]

lemma hd_dropWhile_space:
  "dropWhile is_space z \<noteq> [] \<Longrightarrow> \<not> is_space (hd (dropWhile is_space z))"
  by (rule hd_dropWhile)

lemma sep_ok_multispace:
  "successively sep_weak t \<Longrightarrow> successively sep_ok (multispace_sub t)"
proof (induction t rule: multispace_sub.induct)
  case 1
  show ?case by simp
next
  case (2 c cs)
  show ?case
  proof (cases "is_space c")
    case True
    let ?d = "dropWhile is_space cs"
    have "successively sep_weak ?d"
      using 2(3) by (intro successively_dropWhile) (rule successively_tl)
    with 2(1) True have ih: "successively sep_ok (multispace_sub ?d)" by simp
    have "?d \<noteq> [] \<Longrightarrow> sep_ok SP (hd (multispace_sub ?d))"
      using hd_dropWhile_space [of cs] by (auto simp: hd_multispace sep_ok_def)
    with ih True show ?thesis by (auto simp: successively_Cons)
  next
    case False
    from 2(3) have "successively sep_weak cs" by (rule successively_tl)
    with 2(2) False have ih: "successively sep_ok (multispace_sub cs)" by simp
    have "cs \<noteq> [] \<Longrightarrow> sep_ok c (hd (multispace_sub cs))"
    proof -
      assume ne: "cs \<noteq> []"
      with 2(3) have w: "sep_weak c (hd cs)" by (simp add: successively_Cons)
      from False have "c \<noteq> SP" by auto
      with w False ne show ?thesis
        by (auto simp: hd_multispace sep_ok_def sep_weak_def)
    qed
    with ih False show ?thesis by (auto simp: successively_Cons)
  qed
qed

lemma hd_hyphen: "hyphen_sub z \<noteq> [] \<Longrightarrow> hd (hyphen_sub z) \<noteq> HY"
proof (cases z)
  case Nil
  then show "hyphen_sub z \<noteq> [] \<Longrightarrow> hd (hyphen_sub z) \<noteq> HY" by simp
next
  case (Cons c cs)
  show "hd (hyphen_sub z) \<noteq> HY"
  proof (cases "dropWhile is_space (c # cs)")
    case Nil
    from copied_not_hyphen [of c cs] Nil have "c \<noteq> HY" by blast
    with hyphen_copy_Nil [OF Nil] Cons show ?thesis by simp
  next
    case d: (Cons d r)
    show ?thesis
    proof (cases "d = HY")
      case True
      with hyphen_match [of c cs r] d Cons show ?thesis by simp
    next
      case False
      from copied_not_hyphen [of c cs d r] d False have "c \<noteq> HY" by blast
      with hyphen_copy [OF d False] Cons show ?thesis by simp
    qed
  qed
qed

lemma sep_weak_hyphen: "successively sep_weak (hyphen_sub s)"
proof (induction s rule: hyphen_sub.induct)
  case 1
  show ?case by simp
next
  case (2 c cs)
  have copy: "successively sep_weak (hyphen_sub cs) \<Longrightarrow> c \<noteq> HY \<Longrightarrow>
              successively sep_weak (c # hyphen_sub cs)"
    using hd_hyphen [of cs] by (auto simp: successively_Cons sep_weak_def)
  show ?case
  proof (cases "dropWhile is_space (c # cs)")
    case Nil
    from copied_not_hyphen [of c cs] Nil have "c \<noteq> HY" by blast
    with 2(1) [OF Nil] copy hyphen_copy_Nil [OF Nil] show ?thesis by simp
  next
    case d: (Cons d r)
    show ?thesis
    proof (cases "d = HY")
      case True
      from 2(2) [OF d True]
      have "successively sep_weak (SP # HY # SP # hyphen_sub (dropWhile is_space r))"
        by (auto simp: successively_Cons sep_weak_def)
      with hyphen_match [of c cs r] d True show ?thesis by simp
    next
      case False
      from copied_not_hyphen [of c cs d r] d False have "c \<noteq> HY" by blast
      with 2(3) [OF d False] copy hyphen_copy [OF d False] show ?thesis by simp
    qed
  qed
qed

lemma rev_split: "xs = rev (dropWhile P (rev xs)) @ rev (takeWhile P (rev xs))"
proof -
  have "rev (takeWhile P (rev xs) @ dropWhile P (rev xs)) = rev (rev xs)"
    by (simp only: takeWhile_dropWhile_id)
  then show ?thesis
    by (simp only: rev_append rev_rev_ident)
qed

lemma strip_sub: "\<exists>a b. s = a @ strip s @ b"
proof -
  let ?u = "dropWhile is_space s"
  have "?u = strip s @ rev (takeWhile is_space (rev ?u))"
    unfolding strip_def by (rule rev_split)
  moreover have "s = takeWhile is_space s @ ?u" by simp
  ultimately have "s = takeWhile is_space s @ strip s @ rev (takeWhile is_space (rev ?u))"
    by simp
  then show ?thesis by blast
qed

lemma rstrip_sub: "\<exists>b. s = rstrip cs s @ b"
proof -
  have "s = rstrip cs s @ rev (takeWhile (\<lambda>c. c \<in> set cs) (rev s))"
    unfolding rstrip_def by (rule rev_split)
  then show ?thesis by blast
qed

lemma rstrip_last: "rstrip cs s \<noteq> [] \<Longrightarrow> last (rstrip cs s) \<notin> set cs"
  using hd_dropWhile [of "\<lambda>c. c \<in> set cs" "rev s"]
  by (simp add: rstrip_def last_rev)

lemma rstrip_hd: "rstrip cs s \<noteq> [] \<Longrightarrow> hd (rstrip cs s) = hd s"
proof -
  assume ne: "rstrip cs s \<noteq> []"
  from rstrip_sub [of s cs] obtain b where "s = rstrip cs s @ b" by blast
  then have "hd s = hd (rstrip cs s @ b)" by simp
  with ne show ?thesis by simp
qed

lemma strip_last: "strip s \<noteq> [] \<Longrightarrow> \<not> is_space (last (strip s))"
  using hd_dropWhile [of is_space "rev (dropWhile is_space s)"]
  by (simp add: strip_def last_rev)

lemma last_dropWhile_keep: "dropWhile P xs \<noteq> [] \<Longrightarrow> last (dropWhile P xs) = last xs"
proof -
  assume ne: "dropWhile P xs \<noteq> []"
  have "last xs = last (takeWhile P xs @ dropWhile P xs)" by simp
  also have "\<dots> = last (dropWhile P xs)" using ne by (rule last_appendR)
  finally show ?thesis by simp
qed

lemma strip_hd: "strip s \<noteq> [] \<Longrightarrow> \<not> is_space (hd (strip s))"
proof -
  assume ne: "strip s \<noteq> []"
  let ?u = "dropWhile is_space s"
  from ne have d: "dropWhile is_space (rev ?u) \<noteq> []" by (simp add: strip_def)
  have u: "?u \<noteq> []"
  proof
    assume "?u = []"
    then have "dropWhile is_space (rev ?u) = []" by (simp only: rev.simps dropWhile.simps)
    with d show False by simp
  qed
  have "hd (strip s) = last (dropWhile is_space (rev ?u))"
    using d by (simp add: strip_def hd_rev)
  also have "\<dots> = last (rev ?u)" using d by (rule last_dropWhile_keep)
  also have "\<dots> = hd ?u" using u by (simp add: last_rev)
  finally show ?thesis using hd_dropWhile [OF u] by simp
qed

lemma successively_sub: "successively P (a @ m @ b) \<Longrightarrow> successively P m"
  by (simp add: successively_append_iff)

lemma successively_strip: "successively P s \<Longrightarrow> successively P (strip s)"
proof -
  assume a: "successively P s"
  from strip_sub [of s] obtain x y where "s = x @ strip s @ y" by blast
  with a have "successively P (x @ strip s @ y)" by simp
  then show ?thesis by (rule successively_sub)
qed

lemma successively_rstrip: "successively P s \<Longrightarrow> successively P (rstrip cs s)"
proof -
  assume a: "successively P s"
  from rstrip_sub [of s cs] obtain y where "s = rstrip cs s @ y" by blast
  with a have "successively P ([] @ rstrip cs s @ y)" by simp
  then show ?thesis by (rule successively_sub)
qed

lemma set_strip: "set (strip s) \<subseteq> set s"
proof -
  from strip_sub [of s] obtain x y where e: "s = x @ strip s @ y" by blast
  have "set (strip s) \<subseteq> set (x @ strip s @ y)" by auto
  with e show ?thesis by simp
qed

lemma set_rstrip: "set (rstrip cs s) \<subseteq> set s"
proof -
  from rstrip_sub [of s cs] obtain y where e: "s = rstrip cs s @ y" by blast
  have "set (rstrip cs s) \<subseteq> set (rstrip cs s @ y)" by auto
  with e show ?thesis by simp
qed

lemma tidy_set:
  "c \<in> set (rstrip '' .'' (strip (multispace_sub s))) \<Longrightarrow>
   (c \<in> set s \<or> c = SP) \<and> (is_space c \<longrightarrow> c = SP)"
proof -
  assume "c \<in> set (rstrip '' .'' (strip (multispace_sub s)))"
  with set_rstrip [of "'' .''" "strip (multispace_sub s)"] set_strip [of "multispace_sub s"]
  have "c \<in> set (multispace_sub s)" by blast
  with set_multispace [of c s] space_multispace [of c s] show ?thesis by blast
qed

lemma tidy_sep:
  "successively sep_weak s \<Longrightarrow> successively sep_ok (rstrip '' .'' (strip (multispace_sub s)))"
  by (intro successively_rstrip successively_strip sep_ok_multispace)

lemma tidy_ends:
  assumes "rstrip '' .'' (strip (multispace_sub s)) \<noteq> []"
  shows "\<not> is_space (hd (rstrip '' .'' (strip (multispace_sub s))))
         \<and> \<not> is_space (last (rstrip '' .'' (strip (multispace_sub s))))
         \<and> last (rstrip '' .'' (strip (multispace_sub s))) \<noteq> CHR ''.''"
proof -
  let ?t = "strip (multispace_sub s)"
  from assms have ne: "?t \<noteq> []" by (auto simp: rstrip_def)
  from rstrip_hd [OF assms] strip_hd [OF ne]
  have h: "\<not> is_space (hd (rstrip '' .'' ?t))" by simp
  from rstrip_last [OF assms] have l: "last (rstrip '' .'' ?t) \<noteq> SP"
    "last (rstrip '' .'' ?t) \<noteq> CHR ''.''" by auto
  from assms have "last (rstrip '' .'' ?t) \<in> set (rstrip '' .'' ?t)" by simp
  from tidy_set [OF this] l(1) have "\<not> is_space (last (rstrip '' .'' ?t))" by blast
  with h l show ?thesis by simp
qed

lemma normal_untitled: "normal_name ''untitled''"
  by (simp add: normal_name_def tidy_chars_def sep_ok_def is_space_def invalid_win_def)

lemma sanitize_normal: "normal_name (sanitize_filename x)"
proof -
  let ?n1 = "invalid_win_sub x"
  let ?n2 = "rstrip '' .'' (strip (multispace_sub ?n1))"
  let ?n3 = "hyphen_sub ?n2"
  let ?n4 = "rstrip '' .'' (strip (multispace_sub ?n3))"
  show ?thesis
  proof (cases "?n4 = []")
    case True
    then have "sanitize_filename x = ''untitled''"
      by (simp add: sanitize_filename_def Let_def)
    with normal_untitled show ?thesis by simp
  next
    case False
    then have e: "sanitize_filename x = ?n4"
      by (simp add: sanitize_filename_def Let_def)
    have v1: "\<not> invalid_win c" if "c \<in> set ?n1" for c
      using that by (auto simp: invalid_win_sub_def split: if_splits)
    have v2: "\<not> invalid_win c" if "c \<in> set ?n2" for c
      using tidy_set [OF that] v1 [of c] by auto
    have v3: "\<not> invalid_win c" if "c \<in> set ?n3" for c
      using set_hyphen [OF that] v2 [of c] by auto
    have "tidy_chars ?n4"
      unfolding tidy_chars_def
    proof
      fix c assume c: "c \<in> set ?n4"
      from tidy_set [OF c] v3 [of c] show "\<not> invalid_win c \<and> (is_space c \<longrightarrow> c = SP)"
        by auto
    qed
    moreover have "successively sep_ok ?n4"
      by (rule tidy_sep) (rule sep_weak_hyphen)
    moreover note tidy_ends [OF False] False
    ultimately show ?thesis
      unfolding e normal_name_def by simp
  qed
qed

lemma spaced_Nil [simp]: "spaced []"
  by (simp add: spaced_def)

lemma spaced_tl: "spaced (c # cs) \<Longrightarrow> spaced cs"
  by (auto simp: spaced_def dest: successively_tl)

lemma spaced_dropWhile: "spaced y \<Longrightarrow> spaced (dropWhile P y)"
  by (auto simp: spaced_def dest: set_dropWhileD intro: successively_dropWhile)

lemma spaced_pair: "spaced (a # b # r) \<Longrightarrow> sep_ok a b"
  by (simp add: spaced_def)

lemma spaced_head: "spaced (c # cs) \<Longrightarrow> is_space c \<Longrightarrow> c = SP"
  by (simp add: spaced_def)

lemma spaced_after_space: "spaced (c # cs) \<Longrightarrow> is_space c \<Longrightarrow> dropWhile is_space cs = cs"
proof (cases cs)
  case Nil
  then show "dropWhile is_space cs = cs" by simp
next
  case (Cons d r)
  assume s: "spaced (c # cs)" and c: "is_space c"
  from s c have "c = SP" by (rule spaced_head)
  moreover from s have "sep_ok c d" unfolding Cons by (rule spaced_pair)
  ultimately have "d \<noteq> SP" by (simp add: sep_ok_def)
  moreover from s have "spaced (d # r)" unfolding Cons by (rule spaced_tl)
  then have "is_space d \<longrightarrow> d = SP" by (blast dest: spaced_head)
  ultimately have "\<not> is_space d" by blast
  with Cons show "dropWhile is_space cs = cs" by simp
qed

lemma spaced_after_hyphen: "spaced (HY # r) \<Longrightarrow> r = [] \<or> (\<exists>r'. r = SP # r' \<and> dropWhile is_space r' = r')"
proof (cases r)
  case Nil
  then show "r = [] \<or> (\<exists>r'. r = SP # r' \<and> dropWhile is_space r' = r')" by simp
next
  case (Cons d r')
  assume s: "spaced (HY # r)"
  from s have "sep_ok HY d" unfolding Cons by (rule spaced_pair)
  then have d: "d = SP" by (simp add: sep_ok_def)
  from s have "spaced r" by (rule spaced_tl)
  with Cons d have "dropWhile is_space r' = r'"
    using spaced_after_space [of SP r'] by simp
  with Cons d show "r = [] \<or> (\<exists>r'. r = SP # r' \<and> dropWhile is_space r' = r')" by simp
qed

lemma spaced_before_hyphen: "spaced (c # HY # r) \<Longrightarrow> c = SP"
  by (drule spaced_pair) (simp add: sep_ok_def)

lemma trail_Cons: "trail (c # cs) = (if cs = [] then (if c = HY then [SP] else []) else trail cs)"
  by (simp add: trail_def)

lemma trail_Nil [simp]: "trail [] = []"
  by (simp add: trail_def)

lemma lead_Nil [simp]: "lead [] = []"
  by (simp add: lead_def)

lemma multispace_block:
  "multispace_sub (SP # HY # SP # x) = SP # HY # SP # dropWhile is_space (multispace_sub x)"
  by (simp add: dropWhile_multispace)

lemma dropWhile_lead:
  "z = [] \<or> \<not> is_space (hd z) \<Longrightarrow> dropWhile is_space (lead z @ z @ trail z) = z @ trail z"
  by (cases z) (auto simp: lead_def)

lemma trail_append_Cons: "trail (p @ c # r) = trail (c # r)"
  by (simp add: trail_def)

lemma after_hyphen:
  assumes "spaced (HY # r)"
  shows "SP # dropWhile is_space r @ trail (dropWhile is_space r) = r @ trail (p @ HY # r)"
proof -
  note t = trail_append_Cons
  from spaced_after_hyphen [OF assms] show ?thesis
  proof
    assume "r = []"
    then show ?thesis by (simp add: t trail_Cons)
  next
    assume "\<exists>r'. r = SP # r' \<and> dropWhile is_space r' = r'"
    then obtain r' where r: "r = SP # r'" and d: "dropWhile is_space r' = r'" by blast
    have "dropWhile is_space r = r'" using r d by simp
    moreover have "trail (HY # r) = trail r'" using r by (simp add: trail_Cons)
    ultimately show ?thesis using r by (simp add: t)
  qed
qed

lemma hd_dropWhile_or_Nil: "dropWhile is_space r = [] \<or> \<not> is_space (hd (dropWhile is_space r))"
  using hd_dropWhile [of is_space r] by blast

lemma multispace_hyphen:
  "spaced y \<Longrightarrow> multispace_sub (hyphen_sub y) = lead y @ y @ trail y"
proof (induction y rule: hyphen_sub.induct)
  case 1
  show ?case by simp
next
  case (2 c cs)
  note sp = \<open>spaced (c # cs)\<close>
  have copy_case: "multispace_sub (c # hyphen_sub cs) = lead (c # cs) @ (c # cs) @ trail (c # cs)"
    if c: "c \<noteq> HY" and ih: "multispace_sub (hyphen_sub cs) = lead cs @ cs @ trail cs"
      and nh: "is_space c \<Longrightarrow> cs = [] \<or> hd cs \<noteq> HY"
  proof (cases "is_space c")
    case True
    from sp True have cSP: "c = SP" by (rule spaced_head)
    from sp True have dw: "dropWhile is_space cs = cs" by (rule spaced_after_space)
    have hn: "cs = [] \<or> \<not> is_space (hd cs)"
      using hd_dropWhile_or_Nil [of cs] dw by simp
    have "multispace_sub (c # hyphen_sub cs) = SP # dropWhile is_space (lead cs @ cs @ trail cs)"
      using cSP ih by (simp only: multispace_space_cons)
    also have "\<dots> = SP # cs @ trail cs"
      using dropWhile_lead [OF hn] by simp
    also have "\<dots> = lead (c # cs) @ (c # cs) @ trail (c # cs)"
      using cSP by (simp add: lead_def trail_Cons)
    finally show ?thesis .
  next
    case False
    have "lead cs = []"
    proof (cases cs)
      case Nil
      then show ?thesis by simp
    next
      case (Cons d r)
      from sp have "sep_ok c d" unfolding Cons by (rule spaced_pair)
      with False have "d \<noteq> HY" by (auto simp: sep_ok_def)
      with Cons show ?thesis by (simp add: lead_def)
    qed
    with False c ih show ?thesis
      by (simp add: lead_def trail_Cons)
  qed
  show ?case
  proof (cases "dropWhile is_space (c # cs)")
    case Nil
    from copied_not_hyphen [of c cs] Nil have c: "c \<noteq> HY" by blast
    from Nil have "is_space c" by (auto split: if_splits)
    with sp Nil have "cs = []"
      using spaced_after_space [of c cs] by (auto split: if_splits)
    with copy_case [OF c "2.IH"(1) [OF Nil spaced_tl [OF sp]]] hyphen_copy_Nil [OF Nil]
    show ?thesis by simp
  next
    case d: (Cons d r)
    show ?thesis
    proof (cases "d = HY")
      case False
      from copied_not_hyphen [of c cs d r] d False have c: "c \<noteq> HY" by blast
      have nh: "cs = [] \<or> hd cs \<noteq> HY" if "is_space c"
      proof -
        from sp that have "dropWhile is_space cs = cs" by (rule spaced_after_space)
        with d that have "cs = d # r" by simp
        with False show ?thesis by simp
      qed
      from copy_case [OF c "2.IH"(3) [OF d False spaced_tl [OF sp]] nh] hyphen_copy [OF d False]
      show ?thesis by simp
    next
      case True
      let ?z = "dropWhile is_space r"
      have spr: "spaced (HY # r)"
        using spaced_dropWhile [OF sp, of is_space] d True by simp
      then have "spaced ?z"
        by (intro spaced_dropWhile) (rule spaced_tl)
      from "2.IH"(2) [OF d True this]
      have ih: "multispace_sub (hyphen_sub ?z) = lead ?z @ ?z @ trail ?z" .
      have m: "multispace_sub (hyphen_sub (c # cs)) = SP # HY # SP # ?z @ trail ?z"
        using hyphen_match [of c cs r] d True ih dropWhile_lead [OF hd_dropWhile_or_Nil [of r]]
        by (simp only: multispace_block)
      show ?thesis
      proof (cases "c = HY")
        case cH: True
        with d have cs: "cs = r" by simp
        from after_hyphen [OF spr, of "[]"] have "SP # ?z @ trail ?z = r @ trail (HY # r)"
          by simp
        with m cH cs show ?thesis by (simp add: lead_def)
      next
        case cN: False
        have "is_space c"
        proof (rule ccontr)
          assume "\<not> is_space c"
          with d have "c = d" by simp
          with True cN show False by simp
        qed
        with sp have cSP: "c = SP" and "dropWhile is_space cs = cs"
          by (rule spaced_head, rule spaced_after_space)
        with d \<open>is_space c\<close> True have cs: "cs = HY # r" by simp
        from after_hyphen [OF spr, of "[SP]"] have "SP # ?z @ trail ?z = r @ trail (SP # HY # r)"
          by simp
        with m cSP cs show ?thesis by (simp add: lead_def)
      qed
    qed
  qed
qed

lemma multispace_id: "spaced y \<Longrightarrow> multispace_sub y = y"
proof (induction y)
  case Nil
  show ?case by simp
next
  case (Cons c cs)
  from Cons.prems have ih: "multispace_sub cs = cs"
    by (intro Cons.IH) (rule spaced_tl)
  show ?case
  proof (cases "is_space c")
    case True
    with Cons.prems spaced_head [of c cs] spaced_after_space [of c cs] ih show ?thesis by simp
  next
    case False
    with ih show ?thesis by simp
  qed
qed

lemma strip_id: "y \<noteq> [] \<Longrightarrow> \<not> is_space (hd y) \<Longrightarrow> \<not> is_space (last y) \<Longrightarrow> strip y = y"
proof -
  assume ne: "y \<noteq> []" and h: "\<not> is_space (hd y)" and l: "\<not> is_space (last y)"
  from ne h have a: "dropWhile is_space y = y" by (cases y) simp_all
  from ne l have "\<not> is_space (hd (rev y))" by (simp add: hd_rev)
  with ne have "dropWhile is_space (rev y) = rev y" by (cases "rev y") simp_all
  with a show ?thesis by (simp add: strip_def)
qed

lemma rstrip_id: "y \<noteq> [] \<Longrightarrow> last y \<notin> set cs \<Longrightarrow> rstrip cs y = y"
proof -
  assume ne: "y \<noteq> []" and l: "last y \<notin> set cs"
  from ne l have "hd (rev y) \<notin> set cs" by (simp add: hd_rev)
  with ne have "dropWhile (\<lambda>c. c \<in> set cs) (rev y) = rev y" by (cases "rev y") simp_all
  then show ?thesis by (simp add: rstrip_def)
qed

lemma strip_padded:
  assumes "y \<noteq> []" and "\<not> is_space (hd y)" and "\<not> is_space (last y)"
  shows "strip (lead y @ y @ trail y) = y"
proof -
  have a: "dropWhile is_space (lead y @ y @ trail y) = y @ trail y"
    using assms(2) by (intro dropWhile_lead) simp
  from assms(1,3) have "\<not> is_space (hd (rev y))" by (simp add: hd_rev)
  with assms(1) have "dropWhile is_space (rev y) = rev y" by (cases "rev y") simp_all
  then have "dropWhile is_space (rev (y @ trail y)) = rev y"
    by (simp add: trail_def)
  with a show ?thesis by (simp add: strip_def)
qed

lemma sanitize_fixes_normal:
  assumes "normal_name y"
  shows "sanitize_filename y = y"
proof -
  from assms have tc: "tidy_chars y" and so: "successively sep_ok y" and ne: "y \<noteq> []"
    and h: "\<not> is_space (hd y)" and l: "\<not> is_space (last y)" and dot: "last y \<noteq> CHR ''.''"
    by (simp_all add: normal_name_def)
  from tc so have sp: "spaced y" by (simp add: spaced_def tidy_chars_def)
  from l have lsp: "last y \<noteq> SP" by auto
  have n1: "invalid_win_sub y = y"
    using tc by (auto simp: invalid_win_sub_def tidy_chars_def intro: map_idI)
  have t: "rstrip '' .'' (strip (multispace_sub y)) = y"
    using multispace_id [OF sp] strip_id [OF ne h l] rstrip_id [OF ne, of "'' .''"] lsp dot
    by simp
  have "rstrip '' .'' (strip (multispace_sub (hyphen_sub y))) = y"
    using multispace_hyphen [OF sp] strip_padded [OF ne h l] rstrip_id [OF ne, of "'' .''"] lsp dot
    by simp
  with n1 t ne show ?thesis
    by (simp add: sanitize_filename_def Let_def)
qed

section \<open>Result classification (C1)\<close>



section \<open>The counters (C6)\<close>



section \<open>The tag writer's results (C9, C10)\<close>

text \<open>
  C10. Whenever \<open>update_tags\<close> returns, the first component of its result is true; a failure
  of the tag write is an exception, which ends the \<open>try\<close> block of the file, and the
  \<open>except\<close> clause records its message as the file's error.
\<close>

theorem update_tags_never_false:
  "(update_tags ev w p ti = Inr res \<longrightarrow> fst (snd res) = True) \<and>
   (update_tags ev w p ti = Inl e \<longrightarrow> tag_stage ev False w p ti r = (w, r, Raised e)) \<and>
   (process_file ev d w0 q = (w1, r1, Raised e1) \<longrightarrow>
      results (snd (process_step ev d (w0, s) q)) = results s @ [r1\<lparr>error := Some (str_exn e1)\<rparr>])"
  using update_tags_Inr [of ev w p ti res]
  by (auto simp: tag_stage_def process_step_def)

theorem update_tags_never_false_witness:
  "update_tags ex_env ex_world ex_path ex_track
     = Inr ([(ex_path, Some [TextFrame ''TCON'' ''Rock'', TextFrame ''TIT2'' ''Bohemian Rhapsody'',
               TextFrame ''TPE1'' ''Queen'', TextFrame ''TALB'' ''A Night at the Opera''])],
            True, False)
   \<and> update_tags ex_env_save_fails ex_world ex_path ex_track = Inl (MutagenError ''disk full'')
   \<and> tag_stage ex_env_save_fails False ex_world ex_path ex_track (new_result ex_path)
       = (ex_world, new_result ex_path, Raised (MutagenError ''disk full''))
   \<and> snd (snd (process_file ex_env_save_fails False ex_world ex_path))
       = Raised (MutagenError ''disk full'')
   \<and> error (last (results (snd (process_step ex_env_save_fails False
              (ex_world, \<lparr>results = [], processed = 0, unidentified = 0, errors = 0, total = 0\<rparr>)
              ex_path))))
       = Some ''disk full''"
proof -
  have a: "update_tags ex_env ex_world ex_path ex_track
     = Inr ([(ex_path, Some [TextFrame ''TCON'' ''Rock'', TextFrame ''TIT2'' ''Bohemian Rhapsody'',
               TextFrame ''TPE1'' ''Queen'', TextFrame ''TALB'' ''A Night at the Opera''])],
            True, False)"
    by code_simp
  have b: "update_tags ex_env_save_fails ex_world ex_path ex_track = Inl (MutagenError ''disk full'')"
    by code_simp
  have c: "process_file ex_env_save_fails False ex_world ex_path
      = ([((''music'', ''Queen - Bohemian Rhapsody - A Night at the Opera.mp3''),
           Some [TextFrame ''TIT2'' ''old title'', TextFrame ''TCON'' ''Rock''])],
         \<lparr>src_name = ''track01.mp3'',
            dest_name = ''Queen - Bohemian Rhapsody - A Night at the Opera.mp3'',
            identified = True, renamed = True, tags_ok = False, art_ok = False,
            skipped = False, error = None\<rparr>,
         Raised (MutagenError ''disk full''))"
    by code_simp
  from update_tags_never_false [of ex_env_save_fails ex_world ex_path ex_track _
         "MutagenError ''disk full''" "new_result ex_path" False ex_world ex_path _ _
         "MutagenError ''disk full''"
         "\<lparr>results = [], processed = 0, unidentified = 0, errors = 0, total = 0\<rparr>"] a b c
  show ?thesis by simp
qed

text \<open>
  C9. When the TrackInfo has a cover URL and fetching its bytes fails, \<open>update_tags\<close> does
  what it does for a TrackInfo without a cover: it completes with \<open>art_ok\<close> false whenever
  opening and saving the file succeed, and an exception it raises is one of opening or
  saving, never the one of the download.
\<close>

theorem cover_fetch_failure_degrades:
  assumes "cover_url ti = Some (JStr url)" and "url \<noteq> []" and "fetch_cover ev url = Inl e"
  shows "update_tags ev w p ti = update_tags ev w p (ti\<lparr>cover_url := None\<rparr>)
         \<and> (\<forall>res. update_tags ev w p ti = Inr res \<longrightarrow> fst (snd res) = True \<and> snd (snd res) = False)
         \<and> (\<forall>e'. update_tags ev w p ti = Inl e' \<longrightarrow>
               map_of w p = None \<or> open_error ev p = Some e' \<or> save_error ev p = Some e')
         \<and> (map_of w p \<noteq> None \<and> open_error ev p = None \<and> save_error ev p = None \<longrightarrow>
               (\<exists>w'. update_tags ev w p ti = Inr (w', True, False)))"
  using assms
  by (auto simp: update_tags_def embed_cover_def mp3_open_def mp3_save_def Let_def
           split: sum.splits option.splits)

theorem cover_fetch_failure_degrades_witness:
  "cover_url ex_track = Some (JStr ''http://x/cover.jpg'') \<and> ''http://x/cover.jpg'' \<noteq> []
   \<and> fetch_cover ex_env ''http://x/cover.jpg'' = Inl (OSError ''timed out'')
   \<and> update_tags ex_env ex_world ex_path ex_track
       = update_tags ex_env ex_world ex_path (ex_track\<lparr>cover_url := None\<rparr>)
   \<and> (\<exists>w'. update_tags ex_env ex_world ex_path ex_track = Inr (w', True, False))"
proof -
  have h1: "cover_url ex_track = Some (JStr ''http://x/cover.jpg'')" by (simp add: ex_track_def)
  have h2: "''http://x/cover.jpg'' \<noteq> []" by simp
  have h3: "fetch_cover ex_env ''http://x/cover.jpg'' = Inl (OSError ''timed out'')"
    by (simp add: ex_env_def)
  have h4: "map_of ex_world ex_path \<noteq> None \<and> open_error ex_env ex_path = None
            \<and> save_error ex_env ex_path = None"
    by (simp add: ex_world_def ex_env_def)
  from cover_fetch_failure_degrades [OF h1 h2 h3, of ex_world ex_path] h1 h2 h3 h4
  show ?thesis by blast
qed

section \<open>Preview mode (C2)\<close>




section \<open>Collision resolution (C8)\<close>



section \<open>Album discovery (C3)\<close>

text \<open>
  C3, as amended. When extraction succeeds, the album is the text of the last metadata
  entry, in scan order over all sections and over the entries of each section, whose
  title equals \<open>album\<close> after stripping whitespace and lower-casing and whose text is not
  empty; that text is a string, and the album is its whitespace-normalised form. With no
  such entry there is no album. So within one section too the last matching entry wins,
  not the first: the inner loop has no \<open>break\<close>.
\<close>

theorem album_last_entry_wins:
  assumes "extract_trackinfo_from_shazam payload = Inr (Some ti)"
  shows "album ti = normalized_album (last_album None (album_texts (sections_of payload)))
         \<and> (album_texts (sections_of payload) \<noteq> [] \<longrightarrow>
              is_str (last (album_texts (sections_of payload))))"
proof -
  from extract_body_Some [OF extract_Some_body [OF assms]]
  obtain alb where s: "scan_sections None (sections_of payload) = Inr alb"
    and f: "finish_extract (track_of payload) (field (track_of payload) ''title'')
                (field (track_of payload) ''subtitle'') alb = Inr (Some ti)"
    by blast
  from scan_sections_last [OF s] finish_extract_album [OF f] show ?thesis
    by (auto simp: last_album_def)
qed

theorem album_last_entry_wins_witness:
  "extract_trackinfo_from_shazam two_albums_payload
     = Inr (Some \<lparr>artist = ''Band'', title = ''Song'', album = Some ''Y'', cover_url = None\<rparr>)
   \<and> album_texts (sections_of two_albums_payload) = [JStr ''X'', JStr ''Y'']
   \<and> album \<lparr>artist = ''Band'', title = ''Song'', album = Some ''Y'', cover_url = None\<rparr>
       = normalized_album (last_album None (album_texts (sections_of two_albums_payload)))"
proof -
  have h: "extract_trackinfo_from_shazam two_albums_payload
     = Inr (Some \<lparr>artist = ''Band'', title = ''Song'', album = Some ''Y'', cover_url = None\<rparr>)"
    by code_simp
  have t: "album_texts (sections_of two_albums_payload) = [JStr ''X'', JStr ''Y'']"
    by code_simp
  from album_last_entry_wins [OF h] h t show ?thesis by simp
qed

text \<open>The claim as stated fails on a section with two album entries: the code returns
  the text of the second, the first entry of the section is the other one.\<close>

theorem album_first_entry_counterexample:
  "extract_trackinfo_from_shazam two_albums_payload
     = Inr (Some \<lparr>artist = ''Band'', title = ''Song'', album = Some ''Y'', cover_url = None\<rparr>)
   \<and> claimed_album (sections_of two_albums_payload) = Some (JStr ''X'')"
  by code_simp

section \<open>Artist and title of an extracted record (C4)\<close>

text \<open>
  C4. The claim says that a returned TrackInfo has a non-empty artist and title after
  whitespace normalisation. The code tests \<open>not title or not artist\<close> before it
  normalises, so a title that consists of whitespace passes the test and is returned
  empty.
\<close>

theorem blank_title_accepted:
  "extract_trackinfo_from_shazam blank_title_payload
     = Inr (Some \<lparr>artist = ''Queen'', title = [], album = None, cover_url = None\<rparr>)"
  by code_simp

section \<open>Totality of extraction (C5)\<close>



section \<open>Idempotence of sanitization (C7)\<close>

text \<open>
  C7. For every string \<open>x\<close>, sanitizing the sanitized name changes nothing: the result of
  \<open>sanitize_filename\<close> is a normal name (\<open>sanitize_normal\<close>), and the function returns a
  normal name as it is (\<open>sanitize_fixes_normal\<close>).
\<close>

theorem sanitize_idempotent: "sanitize_filename (sanitize_filename x) = sanitize_filename x"
  using sanitize_normal [of x] by (rule sanitize_fixes_normal)

end
